theory Spec2Isabelle
  imports Complex_Main "HOL-Library.Multiset"
begin

section \<open>Data model\<close>

text \<open>
  A Series carries both backing slices and a tag. The struct declaration itself is not
  among the source files; the fields are the three that the methods read and write:
  \<^verbatim>\<open>series.Float\<close> (a \<^verbatim>\<open>[]float64\<close>), \<^verbatim>\<open>series.String\<close> (a \<^verbatim>\<open>[]string\<close>) and
  \<^verbatim>\<open>series.DataType\<close> (a string compared with "float" and "string").
  The element type of \<open>Float\<close> is a type parameter: the methods that only move elements
  around are verified for every representation of \<^verbatim>\<open>float64\<close>; the arithmetic of the
  reductions is carried out in \<open>real\<close>.
\<close>

record 'f Series =
  Float :: "'f list"
  String :: "string list"
  DataType :: string

text \<open>
  Failures: an error value built by \<^verbatim>\<open>fmt.Errorf\<close>, the run-time panic of an index
  out of range, and an explicit \<^verbatim>\<open>panic(msg)\<close>.
\<close>

datatype error = Errorf string | IndexOutOfRange | Panic string

text \<open>
  Modelled from the spec: \<^verbatim>\<open>GetLength\<close> is called by the methods but defined in none of
  the source files. Section 3 of the specification: "Length is the length of the active
  sequence"; the active sequence is chosen by the tag the way \<^verbatim>\<open>RemoveIndexes\<close> chooses it.
\<close>

definition GetLength :: "'f Series \<Rightarrow> nat" where
  "GetLength series =
     (if DataType series = ''float'' then length (Float series) else length (String series))"

section \<open>Chunk arithmetic\<close>

text \<open>
  \<^verbatim>\<open>chunkSize := (length + numGoroutines - 1) / numGoroutines\<close>. Lengths and worker
  counts are non-negative Go \<^verbatim>\<open>int\<close>s, modelled as \<open>nat\<close>; every intermediate value is at
  most \<open>length + numGoroutines\<close> (lemma \<open>chunk_values_bounded\<close>), so nothing wraps for
  slices that fit in memory. \<^verbatim>\<open>runtime.NumCPU()\<close> is the parameter \<open>numGoroutines\<close>; it is
  at least 1.
\<close>

definition chunkSize :: "nat \<Rightarrow> nat \<Rightarrow> nat" where
  "chunkSize len numGoroutines = (len + numGoroutines - 1) div numGoroutines"

text \<open>
  The filters compute \<^verbatim>\<open>start := i * chunkSize; end := (i + 1) * chunkSize\<close>, the
  converters \<^verbatim>\<open>end := start + chunkSize\<close>; both then clip \<^verbatim>\<open>end\<close> to \<^verbatim>\<open>length\<close>.
\<close>

definition filterChunk :: "nat \<Rightarrow> nat \<Rightarrow> nat \<Rightarrow> nat \<times> nat" where
  "filterChunk len numGoroutines i =
     (let start = i * chunkSize len numGoroutines;
          end = (i + 1) * chunkSize len numGoroutines
      in (start, if end > len then len else end))"

definition convertChunk :: "nat \<Rightarrow> nat \<Rightarrow> nat \<Rightarrow> nat \<times> nat" where
  "convertChunk len numGoroutines i =
     (let start = i * chunkSize len numGoroutines;
          end = start + chunkSize len numGoroutines
      in (start, if end > len then len else end))"

text \<open>The indexes a worker's loop \<^verbatim>\<open>for j := start; j < end; j++\<close> visits.\<close>

definition chunkRange :: "nat \<times> nat \<Rightarrow> nat set" where
  "chunkRange c = {fst c ..< snd c}"

section \<open>RemoveIndexes\<close>

text \<open>
  The loop \<^verbatim>\<open>for i, idx := range indexes { filtered[i] = xs[idx] }\<close>. An index that is
  negative or not below \<^verbatim>\<open>len(xs)\<close> panics before the Series is assigned.
\<close>

fun gather :: "'a list \<Rightarrow> int list \<Rightarrow> error + 'a list" where
  "gather xs [] = Inr []"
| "gather xs (idx # rest) =
     (if 0 \<le> idx \<and> idx < int (length xs)
      then (case gather xs rest of
              Inl e \<Rightarrow> Inl e
            | Inr ys \<Rightarrow> Inr (xs ! nat idx # ys))
      else Inl IndexOutOfRange)"

definition RemoveIndexes :: "int list \<Rightarrow> 'f Series \<Rightarrow> error + 'f Series" where
  "RemoveIndexes indexes series =
     (if DataType series = ''float''
      then (case gather (Float series) indexes of
              Inl e \<Rightarrow> Inl e
            | Inr filteredFloats \<Rightarrow> Inr (series\<lparr>Float := filteredFloats\<rparr>))
      else (case gather (String series) indexes of
              Inl e \<Rightarrow> Inl e
            | Inr filteredStrings \<Rightarrow> Inr (series\<lparr>String := filteredStrings\<rparr>)))"

section \<open>FilterFloatSeries\<close>

text \<open>
  Each goroutine scans its chunk and sends its list of matching indexes on the buffered
  channel exactly once; the collector appends the lists in the order they arrive. The
  workers share nothing else, so an execution is determined by the arrival order
  \<open>arrival\<close>, a permutation of the worker numbers \<open>0 ..< numGoroutines\<close>.
\<close>

definition localFiltered :: "('f \<Rightarrow> bool) \<Rightarrow> 'f list \<Rightarrow> nat \<times> nat \<Rightarrow> int list" where
  "localFiltered condition floats c =
     map int (filter (\<lambda>j. condition (floats ! j)) [fst c ..< snd c])"

definition FilterFloatSeries ::
  "nat \<Rightarrow> nat list \<Rightarrow> ('f \<Rightarrow> bool) \<Rightarrow> 'f Series \<Rightarrow> error + (int list \<times> 'f Series)" where
  "FilterFloatSeries numGoroutines arrival condition series =
     (if DataType series \<noteq> ''float''
      then Inl (Panic ''FilterFloatSeries only works with float series'')
      else let len = GetLength series in
        if len = 0 then Inr ([], series)
        else let filteredIndexes =
                   concat (map (\<lambda>i. localFiltered condition (Float series)
                                       (filterChunk len numGoroutines i)) arrival)
             in (case RemoveIndexes filteredIndexes series of
                   Inl e \<Rightarrow> Inl e
                 | Inr series' \<Rightarrow> Inr (filteredIndexes, series')))"

text \<open>The predicate "> 15" of the specification's filtering example.\<close>

definition above15 :: "real \<Rightarrow> bool" where
  "above15 x = (15 < x)"

definition exampleSeries :: "real Series" where
  "exampleSeries = \<lparr>Float = [10, 20, 30, 40, 50], String = [], DataType = ''float''\<rparr>"

section \<open>ConvertStringToFloat\<close>

text \<open>
  \<^verbatim>\<open>strconv.ParseFloat\<close> is library code: the conversion takes it as the parameter
  \<open>ParseFloat\<close>, which returns either the \<^verbatim>\<open>*strconv.NumError\<close> or the value.
\<close>

datatype parseErr = ErrSyntax | ErrRange

datatype NumError = NumError (Func: string) (Num: string) (Err: parseErr)

text \<open>
  The goroutines share \<^verbatim>\<open>firstErr\<close> and \<^verbatim>\<open>floatArray\<close>. A worker is at the head of its
  loop (about to test \<^verbatim>\<open>j < end\<close> and then \<^verbatim>\<open>firstErr != nil\<close>), or past those tests and
  about to parse element \<open>j\<close>, or it has returned. Between the test of \<^verbatim>\<open>firstErr\<close> and the
  parse other workers may run, which is why these are two control points.
\<close>

datatype pc = AtLoop nat | AtParse nat | Returned

record 'f convState =
  firstErr :: "NumError option"
  floatArray :: "'f list"
  workers :: "pc list"

text \<open>
  One atomic step of worker \<open>w\<close>. \<^verbatim>\<open>once.Do\<close> stores the error only if none was stored
  before. A step of a worker that has returned changes nothing.
\<close>

definition workerStep ::
  "(string \<Rightarrow> NumError + 'f) \<Rightarrow> string list \<Rightarrow> nat \<Rightarrow> nat \<Rightarrow> 'f convState \<Rightarrow> 'f convState" where
  "workerStep ParseFloat strs numGoroutines w st =
     (if w < length (workers st) then
        (case workers st ! w of
           Returned \<Rightarrow> st
         | AtLoop j \<Rightarrow>
             if j < snd (convertChunk (length strs) numGoroutines w)
             then (if firstErr st \<noteq> None
                   then st\<lparr>workers := (workers st)[w := Returned]\<rparr>
                   else st\<lparr>workers := (workers st)[w := AtParse j]\<rparr>)
             else st\<lparr>workers := (workers st)[w := Returned]\<rparr>
         | AtParse j \<Rightarrow>
             (case ParseFloat (strs ! j) of
                Inl err \<Rightarrow>
                  st\<lparr>firstErr := (case firstErr st of None \<Rightarrow> Some err | Some e \<Rightarrow> Some e),
                     workers := (workers st)[w := Returned]\<rparr>
              | Inr val \<Rightarrow>
                  st\<lparr>floatArray := (floatArray st)[j := val],
                     workers := (workers st)[w := AtLoop (j + 1)]\<rparr>))
      else st)"

text \<open>
  An execution is an interleaving of worker steps. \<open>sched\<close> lists the workers in the
  order they take steps; \<^verbatim>\<open>wg.Wait()\<close> then lets every worker that has not returned run
  to its end (a worker needs at most \<open>2 * length + 1\<close> steps). Every complete
  interleaving is such a run: take it as \<open>sched\<close>.
\<close>

definition runSched ::
  "(string \<Rightarrow> NumError + 'f) \<Rightarrow> string list \<Rightarrow> nat \<Rightarrow> nat list \<Rightarrow> 'f convState \<Rightarrow> 'f convState" where
  "runSched ParseFloat strs numGoroutines sched st =
     fold (workerStep ParseFloat strs numGoroutines) sched st"

definition waitAll ::
  "(string \<Rightarrow> NumError + 'f) \<Rightarrow> string list \<Rightarrow> nat \<Rightarrow> 'f convState \<Rightarrow> 'f convState" where
  "waitAll ParseFloat strs numGoroutines st =
     fold (\<lambda>w. (workerStep ParseFloat strs numGoroutines w) ^^ (2 * length strs + 1))
          [0 ..< numGoroutines] st"

text \<open>
  The method has no result parameter. The model returns the Series after the call and
  the error handed to \<^verbatim>\<open>fmt.Println\<close>, if any. The tag is not assigned.
\<close>

definition ConvertStringToFloat ::
  "nat \<Rightarrow> (string \<Rightarrow> NumError + 'f::zero) \<Rightarrow> nat list \<Rightarrow> 'f Series
     \<Rightarrow> 'f Series \<times> NumError option" where
  "ConvertStringToFloat numGoroutines ParseFloat sched series =
     (if DataType series = ''float'' then (series, None)
      else let len = length (String series);
               st0 = \<lparr>firstErr = None, floatArray = replicate len 0,
                      workers = map (\<lambda>i. AtLoop (fst (convertChunk len numGoroutines i)))
                                    [0 ..< numGoroutines]\<rparr>;
               st = waitAll ParseFloat (String series) numGoroutines
                      (runSched ParseFloat (String series) numGoroutines sched st0)
           in (case firstErr st of
                 Some err \<Rightarrow> (series, Some err)
               | None \<Rightarrow> (series\<lparr>Float := floatArray st, String := []\<rparr>, None)))"

section \<open>ConvertFloatToString\<close>

text \<open>
  \<^verbatim>\<open>strconv.FormatFloat(x, 'f', -1, 64)\<close> is the parameter \<open>FormatFloat\<close>. Here
  \<^verbatim>\<open>firstErr\<close> is never assigned, the workers read only \<^verbatim>\<open>series.Float\<close> and write
  disjoint cells of \<^verbatim>\<open>stringArray\<close>, so the array after \<^verbatim>\<open>wg.Wait()\<close> does not depend
  on the interleaving: the workers are run one after the other.
\<close>

definition formatChunk :: "('f \<Rightarrow> string) \<Rightarrow> 'f list \<Rightarrow> nat \<times> nat \<Rightarrow> string list \<Rightarrow> string list" where
  "formatChunk FormatFloat floats c stringArray =
     fold (\<lambda>j arr. arr[j := FormatFloat (floats ! j)]) [fst c ..< snd c] stringArray"

definition ConvertFloatToString :: "nat \<Rightarrow> ('f \<Rightarrow> string) \<Rightarrow> 'f Series \<Rightarrow> 'f Series" where
  "ConvertFloatToString numGoroutines FormatFloat series =
     (if DataType series = ''string'' then series
      else let len = length (Float series);
               stringArray =
                 fold (\<lambda>i. formatChunk FormatFloat (Float series) (convertChunk len numGoroutines i))
                      [0 ..< numGoroutines] (replicate len [])
           in series\<lparr>String := stringArray, Float := []\<rparr>)"

text \<open>
  For concrete runs: the value of \<^verbatim>\<open>strconv.ParseFloat(s, 64)\<close> on a plain decimal
  literal (digits with an optional fraction part, at least one digit), as an exact
  real. The literals used below denote numbers that \<^verbatim>\<open>float64\<close> represents exactly. Every
  other string is reported as a syntax error, which is what \<^verbatim>\<open>ParseFloat\<close> returns for
  the non-numeric strings used below.
\<close>

definition digitVal :: "char \<Rightarrow> nat option" where
  "digitVal c =
     (let n = (of_char c :: nat) in if 48 \<le> n \<and> n \<le> 57 then Some (n - 48) else None)"

fun parseDigits :: "string \<Rightarrow> nat \<Rightarrow> nat option" where
  "parseDigits [] acc = Some acc"
| "parseDigits (c # cs) acc =
     (case digitVal c of None \<Rightarrow> None | Some d \<Rightarrow> parseDigits cs (10 * acc + d))"

definition parseDecimal :: "string \<Rightarrow> NumError + real" where
  "parseDecimal s =
     (let ip = takeWhile (\<lambda>c. c \<noteq> CHR ''.'') s;
          fp = drop 1 (dropWhile (\<lambda>c. c \<noteq> CHR ''.'') s)
      in if ip = [] \<and> fp = [] then Inl (NumError ''ParseFloat'' s ErrSyntax)
         else (case (parseDigits ip 0, parseDigits fp 0) of
                 (Some a, Some b) \<Rightarrow> Inr (real a + real b / 10 ^ length fp)
               | _ \<Rightarrow> Inl (NumError ''ParseFloat'' s ErrSyntax)))"

text \<open>The Series of the specification's conversion examples.\<close>

definition mixedSeries :: "real Series" where
  "mixedSeries = \<lparr>Float = [], String = [''1.5'', ''x'', ''3''], DataType = ''string''\<rparr>"


definition numericTextSeries :: "real Series" where
  "numericTextSeries = \<lparr>Float = [], String = [''1.5'', ''2.0'', ''3''], DataType = ''string''\<rparr>"

section \<open>Invariants of the executions of ConvertStringToFloat\<close>

text \<open>Every element of \<open>strs\<close> at an index in \<open>[a, b)\<close> parses.\<close>

definition okUpto :: "(string \<Rightarrow> NumError + 'f) \<Rightarrow> string list \<Rightarrow> nat \<Rightarrow> nat \<Rightarrow> bool" where
  "okUpto ParseFloat strs a b = (\<forall>k. a \<le> k \<and> k < b \<longrightarrow> \<not> isl (ParseFloat (strs ! k)))"

text \<open>The steps a worker still has to take are bounded by this measure.\<close>

definition pcMeasure :: "nat \<Rightarrow> pc \<Rightarrow> nat" where
  "pcMeasure e p =
     (case p of Returned \<Rightarrow> 0 | AtLoop j \<Rightarrow> 2 * (e - j) + 1 | AtParse j \<Rightarrow> 2 * (e - Suc j) + 2)"

text \<open>
  A worker has parsed every element between the start of its chunk and its position;
  once it has returned, either its whole chunk parses or an error is recorded.
\<close>

definition workerInv ::
  "(string \<Rightarrow> NumError + 'f) \<Rightarrow> string list \<Rightarrow> nat \<Rightarrow> NumError option \<Rightarrow> nat \<Rightarrow> pc \<Rightarrow> bool" where
  "workerInv ParseFloat strs numGoroutines fe w p =
     (let c = convertChunk (length strs) numGoroutines w in
      pcMeasure (snd c) p \<le> 2 * length strs + 1 \<and>
      (case p of
         AtLoop j \<Rightarrow> fst c \<le> j \<and> okUpto ParseFloat strs (fst c) j
       | AtParse j \<Rightarrow> fst c \<le> j \<and> j < snd c \<and> okUpto ParseFloat strs (fst c) j
       | Returned \<Rightarrow> fe \<noteq> None \<or> okUpto ParseFloat strs (fst c) (snd c)))"

text \<open>A recorded error is the error of the first element of some chunk that fails.\<close>

definition errOrigin ::
  "(string \<Rightarrow> NumError + 'f) \<Rightarrow> string list \<Rightarrow> nat \<Rightarrow> NumError \<Rightarrow> bool" where
  "errOrigin ParseFloat strs numGoroutines e =
     (\<exists>w k. w < numGoroutines
        \<and> k \<in> chunkRange (convertChunk (length strs) numGoroutines w)
        \<and> ParseFloat (strs ! k) = Inl e
        \<and> okUpto ParseFloat strs (fst (convertChunk (length strs) numGoroutines w)) k)"

definition convInv ::
  "(string \<Rightarrow> NumError + 'f) \<Rightarrow> string list \<Rightarrow> nat \<Rightarrow> 'f convState \<Rightarrow> bool" where
  "convInv ParseFloat strs numGoroutines st =
     (length (workers st) = numGoroutines
      \<and> (\<forall>w < numGoroutines.
            workerInv ParseFloat strs numGoroutines (firstErr st) w (workers st ! w))
      \<and> (\<forall>e. firstErr st = Some e \<longrightarrow> errOrigin ParseFloat strs numGoroutines e))"



text \<open>
  When every element parses: no error is recorded, and each worker has stored the value
  of every element of its chunk below its position.
\<close>

definition filledBelow ::
  "(string \<Rightarrow> NumError + 'f) \<Rightarrow> string list \<Rightarrow> nat \<Rightarrow> 'f list \<Rightarrow> nat \<Rightarrow> nat \<Rightarrow> bool" where
  "filledBelow ParseFloat strs numGoroutines fa w j =
     (\<forall>k. k \<in> chunkRange (convertChunk (length strs) numGoroutines w) \<and> k < j
          \<longrightarrow> fa ! k = projr (ParseFloat (strs ! k)))"

definition succInv ::
  "(string \<Rightarrow> NumError + 'f) \<Rightarrow> string list \<Rightarrow> nat \<Rightarrow> 'f convState \<Rightarrow> bool" where
  "succInv ParseFloat strs numGoroutines st =
     (firstErr st = None
      \<and> length (floatArray st) = length strs
      \<and> length (workers st) = numGoroutines
      \<and> (\<forall>w < numGoroutines.
            (case workers st ! w of
               AtLoop j \<Rightarrow>
                 fst (convertChunk (length strs) numGoroutines w) \<le> j
                 \<and> filledBelow ParseFloat strs numGoroutines (floatArray st) w j
             | AtParse j \<Rightarrow>
                 j \<in> chunkRange (convertChunk (length strs) numGoroutines w)
                 \<and> filledBelow ParseFloat strs numGoroutines (floatArray st) w j
             | Returned \<Rightarrow>
                 filledBelow ParseFloat strs numGoroutines (floatArray st) w
                   (snd (convertChunk (length strs) numGoroutines w)))))"

section \<open>Numeric reductions\<close>

text \<open>
  The arithmetic of the reductions is carried out in \<open>real\<close>: the sums, products and
  quotients below are the exact ones, of which the \<^verbatim>\<open>float64\<close> operations of the source
  are the correctly rounded versions. On the concrete inputs evaluated below every
  intermediate value is a small integer or a dyadic fraction, so the \<^verbatim>\<open>float64\<close>
  operations are exact there and give the same numbers.
\<close>

definition MaxFloat64 :: real where
  "MaxFloat64 = (2 ^ 53 - 1) * 2 ^ 971"

text \<open>
  Modelled from the spec: \<^verbatim>\<open>arrayFloatBase(initial, data, f)\<close> is called by every
  reduction but defined in none of the source files; the callers range over the channel
  it returns. Section 4.2 of the specification: "Each worker folds combine sequentially
  over its chunk starting from identity, producing one partial result per chunk", and
  section 4.1: the chunks are \<open>[i * chunkSize, min ((i + 1) * chunkSize) L)\<close> for
  \<open>i = 0 .. P - 1\<close>, "dropping any chunk whose start \<ge> L". The partial results reach
  the caller in the order \<open>arrival\<close> in which the workers send them, a permutation of
  the worker numbers.
\<close>

definition arrayFloatBase ::
  "nat \<Rightarrow> nat list \<Rightarrow> real \<Rightarrow> real list \<Rightarrow> (real \<Rightarrow> real \<Rightarrow> real) \<Rightarrow> real list" where
  "arrayFloatBase numGoroutines arrival initial data f =
     map (\<lambda>i. fold f (map (\<lambda>j. data ! j)
                          [fst (filterChunk (length data) numGoroutines i) ..<
                           snd (filterChunk (length data) numGoroutines i)]) initial)
         (filter (\<lambda>i. fst (filterChunk (length data) numGoroutines i) < length data) arrival)"






definition arrayMax :: "nat \<Rightarrow> nat list \<Rightarrow> real list \<Rightarrow> real" where
  "arrayMax numGoroutines arrival data =
     (case arrayFloatBase numGoroutines arrival (MaxFloat64 * - 1) data
             (\<lambda>info result. if info > result then info else result) of
        [] \<Rightarrow> 0
      | minVal # rest \<Rightarrow> fold (\<lambda>val minVal. if val > minVal then val else minVal) rest minVal)"



text \<open>
  \<^verbatim>\<open>int(index)\<close> truncates toward zero. \<^verbatim>\<open>nums[lower]\<close> panics when \<open>lower\<close> is negative
  or not below \<^verbatim>\<open>len(nums)\<close>; in the interpolating branch \<open>upper\<close> is below the length.
\<close>

definition goInt :: "real \<Rightarrow> int" where
  "goInt x = (if 0 \<le> x then \<lfloor>x\<rfloor> else \<lceil>x\<rceil>)"

definition arrayCalculatePercentile :: "real list \<Rightarrow> real \<Rightarrow> error + real" where
  "arrayCalculatePercentile nums percentile =
     (let size = int (length nums);
          index = (percentile / 100) * real_of_int size;
          lower = goInt index;
          upper = lower + 1;
          weight = index - real_of_int lower
      in if upper \<ge> size
         then (if 0 \<le> lower \<and> lower < size then Inr (nums ! nat lower)
               else Inl IndexOutOfRange)
         else (if 0 \<le> lower
               then Inr (nums ! nat lower * (1 - weight) + nums ! nat upper * weight)
               else Inl IndexOutOfRange))"

text \<open>
  The reductions of a Series. Each tests the tag, then the length, then calls the array
  function; the worker count and the arrival orders of the partial results are
  parameters.
\<close>

definition GetMax :: "nat \<Rightarrow> nat list \<Rightarrow> real Series \<Rightarrow> error + real" where
  "GetMax numGoroutines arrival series =
     (if DataType series = ''string'' then Inl (Errorf ''to get max select a float column'')
      else if GetLength series = 0 then Inl (Errorf ''GetMax requires a non-empty array'')
      else Inr (arrayMax numGoroutines arrival (Float series)))"








section \<open>Chunks partition the index range\<close>

lemma chunkSize_covers: "1 \<le> P \<Longrightarrow> L \<le> P * chunkSize L P"
proof -
  assume P: "1 \<le> P"
  have "L + P - 1 = P * ((L + P - 1) div P) + (L + P - 1) mod P" by simp
  moreover have "(L + P - 1) mod P < P" using P by simp
  ultimately show ?thesis unfolding chunkSize_def by linarith
qed

lemma chunk_values_bounded:
  assumes "1 \<le> P" "i < P"
  shows "(i + 1) * chunkSize L P \<le> L + P - 1"
proof -
  have "i + 1 \<le> P" using assms(2) by simp
  then have "(i + 1) * chunkSize L P \<le> P * chunkSize L P"
    by (rule mult_le_mono1)
  also have "P * chunkSize L P \<le> L + P - 1"
    unfolding chunkSize_def by simp
  finally show ?thesis .
qed

lemma chunkSize_ceiling:
  assumes P: "1 \<le> P"
  shows "int (chunkSize L P) = \<lceil>real L / real P\<rceil>"
proof -
  let ?q = "(L + P - 1) div P"
  let ?r = "(L + P - 1) mod P"
  have dm: "L + P - 1 = ?q * P + ?r" by simp
  have r: "?r < P" using P by simp
  have up: "L \<le> ?q * P" using dm r by linarith
  have lo: "?q * P < L + P" using dm r P by linarith
  have "real L / real P \<le> real ?q" using up P
    by (simp add: divide_le_eq flip: of_nat_mult)
  moreover have "real ?q - 1 < real L / real P"
  proof -
    have "real (?q * P) < real (L + P)" using lo by (simp only: of_nat_less_iff)
    then have "(real ?q - 1) * real P < real L" by (simp add: algebra_simps)
    then show ?thesis using P by (simp add: less_divide_eq)
  qed
  ultimately have "\<lceil>real L / real P\<rceil> = int ?q"
    by (intro ceiling_unique) simp_all
  then show ?thesis by (simp add: chunkSize_def)
qed

lemma filterChunk_min:
  "filterChunk L P i = (i * chunkSize L P, min ((i + 1) * chunkSize L P) L)"
  by (auto simp: filterChunk_def Let_def min_def)

lemma convertChunk_eq: "convertChunk L P i = filterChunk L P i"
  by (simp add: convertChunk_def filterChunk_def Let_def)

lemma chunkRange_below_length:
  "j \<in> chunkRange (convertChunk L P w) \<Longrightarrow> j < L"
  by (simp add: chunkRange_def convertChunk_eq filterChunk_min)

lemma upt_chunks_prefix:
  "concat (map (\<lambda>i. [fst (filterChunk L P i) ..< snd (filterChunk L P i)]) [0 ..< n])
     = [0 ..< min (n * chunkSize L P) L]"
proof (induction n)
  case 0
  show ?case by simp
next
  case (Suc n)
  let ?c = "chunkSize L P"
  show ?case
  proof (cases "n * ?c \<le> L")
    case True
    have le: "n * ?c \<le> min (Suc n * ?c) L" using True by simp
    have "[0 ..< min (Suc n * ?c) L] = [0 ..< n * ?c] @ [n * ?c ..< min (Suc n * ?c) L]"
      using le by (metis le0 le_Suc_ex upt_add_eq_append)
    then show ?thesis using Suc True by (simp add: filterChunk_min min_absorb1)
  next
    case False
    then have "L < n * ?c" by simp
    then show ?thesis using Suc by (simp add: filterChunk_min min_def)
  qed
qed

lemma upt_chunks:
  "1 \<le> P \<Longrightarrow>
   concat (map (\<lambda>i. [fst (filterChunk L P i) ..< snd (filterChunk L P i)]) [0 ..< P]) = [0 ..< L]"
  using chunkSize_covers[of P L] by (simp add: upt_chunks_prefix min_absorb2)

lemma chunk_ordered:
  assumes "i < j" "a \<in> chunkRange (filterChunk L P i)" "b \<in> chunkRange (filterChunk L P j)"
  shows "a < b"
proof -
  let ?c = "chunkSize L P"
  have "a < (i + 1) * ?c" using assms(2) by (simp add: chunkRange_def filterChunk_min)
  also have "(i + 1) * ?c \<le> j * ?c"
  proof -
    have "i + 1 \<le> j" using assms(1) by simp
    then show ?thesis by (rule mult_le_mono1)
  qed
  also have "j * ?c \<le> b" using assms(3) by (simp add: chunkRange_def filterChunk_min)
  finally show ?thesis .
qed

lemma chunk_disjoint:
  assumes "i \<noteq> j"
  shows "chunkRange (filterChunk L P i) \<inter> chunkRange (filterChunk L P j) = {}"
proof -
  have "a \<noteq> b" if "a \<in> chunkRange (filterChunk L P i)" "b \<in> chunkRange (filterChunk L P j)"
    for a b
  proof (cases "i < j")
    case True
    then show ?thesis using chunk_ordered[OF True that] by simp
  next
    case False
    then have "j < i" using assms by simp
    then show ?thesis using chunk_ordered[OF _ that(2) that(1)] by simp
  qed
  then show ?thesis by blast
qed

lemma chunk_union: "1 \<le> P \<Longrightarrow> (\<Union>i<P. chunkRange (filterChunk L P i)) = {0 ..< L}"
proof -
  assume P: "1 \<le> P"
  have "set (concat (map (\<lambda>i. [fst (filterChunk L P i) ..< snd (filterChunk L P i)]) [0 ..< P]))
        = (\<Union>i<P. chunkRange (filterChunk L P i))"
    by (auto simp: chunkRange_def)
  then show ?thesis using upt_chunks[OF P, of L] by simp
qed

text \<open>
  Claim C5. For every length \<open>L\<close> and every worker count \<open>P \<ge> 1\<close>, with
  \<open>chunkSize = \<lceil>L / P\<rceil>\<close>, the ranges \<open>[i * chunkSize, min ((i + 1) * chunkSize) L)\<close>
  for \<open>i = 0 .. P - 1\<close>, as the filters and the converters compute them, are pairwise
  disjoint, ordered by index, and their union is exactly \<open>[0, L)\<close>; for \<open>L = 0\<close> every
  range is empty.
\<close>

theorem chunks_partition:
  assumes "1 \<le> P"
  shows "int (chunkSize L P) = \<lceil>real L / real P\<rceil>
    \<and> (\<forall>i. filterChunk L P i = (i * chunkSize L P, min ((i + 1) * chunkSize L P) L)
           \<and> convertChunk L P i = filterChunk L P i)
    \<and> (\<forall>i<P. \<forall>j<P. i \<noteq> j \<longrightarrow>
           chunkRange (filterChunk L P i) \<inter> chunkRange (filterChunk L P j) = {})
    \<and> (\<forall>i<P. \<forall>j<P. i < j \<longrightarrow>
           (\<forall>a \<in> chunkRange (filterChunk L P i). \<forall>b \<in> chunkRange (filterChunk L P j). a < b))
    \<and> (\<Union>i<P. chunkRange (filterChunk L P i)) = {0 ..< L}
    \<and> (L = 0 \<longrightarrow> (\<forall>i<P. chunkRange (filterChunk L P i) = {}))"
proof (intro conjI)
  show "int (chunkSize L P) = \<lceil>real L / real P\<rceil>"
    by (rule chunkSize_ceiling[OF assms])
  show "\<forall>i. filterChunk L P i = (i * chunkSize L P, min ((i + 1) * chunkSize L P) L)
           \<and> convertChunk L P i = filterChunk L P i"
    by (simp add: filterChunk_min convertChunk_eq)
  show "\<forall>i<P. \<forall>j<P. i \<noteq> j \<longrightarrow>
           chunkRange (filterChunk L P i) \<inter> chunkRange (filterChunk L P j) = {}"
    by (simp add: chunk_disjoint)
  show "\<forall>i<P. \<forall>j<P. i < j \<longrightarrow>
           (\<forall>a \<in> chunkRange (filterChunk L P i). \<forall>b \<in> chunkRange (filterChunk L P j). a < b)"
    using chunk_ordered by blast
  show "(\<Union>i<P. chunkRange (filterChunk L P i)) = {0 ..< L}"
    by (rule chunk_union[OF assms])
  show "L = 0 \<longrightarrow> (\<forall>i<P. chunkRange (filterChunk L P i) = {})"
    by (simp add: chunkRange_def filterChunk_min)
qed

theorem chunks_partition_witness:
  "(1::nat) \<le> 4
   \<and> chunkSize 5 4 = 2
   \<and> map (filterChunk 5 4) [0, 1, 2, 3] = [(0, 2), (2, 4), (4, 5), (6, 5)]
   \<and> (\<Union>i<4. chunkRange (filterChunk 5 4 i)) = {0 ..< 5}
   \<and> chunkRange (filterChunk 5 4 2) \<inter> chunkRange (filterChunk 5 4 3) = {}"
proof -
  have h: "(1::nat) \<le> 4" by simp
  note t = chunks_partition[OF h, of 5]
  have a: "chunkSize 5 4 = 2" by (simp add: chunkSize_def)
  have b: "map (filterChunk 5 4) [0, 1, 2, 3] = [(0, 2), (2, 4), (4, 5), (6, 5)]"
    by (simp add: filterChunk_def chunkSize_def Let_def)
  have c: "(\<Union>i<4. chunkRange (filterChunk 5 4 i)) = {0 ..< 5}"
    by (rule t[THEN conjunct2, THEN conjunct2, THEN conjunct2, THEN conjunct2, THEN conjunct1])
  have "\<forall>i<4. \<forall>j<4. i \<noteq> j \<longrightarrow>
           chunkRange (filterChunk 5 4 i) \<inter> chunkRange (filterChunk 5 4 j) = {}"
    by (rule t[THEN conjunct2, THEN conjunct2, THEN conjunct1])
  then have d: "chunkRange (filterChunk 5 4 2) \<inter> chunkRange (filterChunk 5 4 3) = {}"
    by simp
  show ?thesis using h a b c d by (intro conjI)
qed

section \<open>RemoveIndexes keeps the listed positions\<close>

lemma gather_in_bounds:
  "\<forall>idx \<in> set indexes. 0 \<le> idx \<and> idx < int (length xs) \<Longrightarrow>
     gather xs indexes = Inr (map (\<lambda>idx. xs ! nat idx) indexes)"
  by (induction indexes) auto

lemma gather_out_of_bounds:
  "\<not> (\<forall>idx \<in> set indexes. 0 \<le> idx \<and> idx < int (length xs)) \<Longrightarrow>
     gather xs indexes = Inl IndexOutOfRange"
  by (induction indexes) (auto split: sum.splits)

text \<open>
  Claim C9. For every Series and every list of indexes that are in bounds for the active
  slice (\<open>Float\<close> when the tag is "float", \<open>String\<close> otherwise), \<open>RemoveIndexes\<close> replaces
  the active slice with the elements at the listed positions, in list order (it keeps the
  listed indexes, it does not remove them), and leaves the other slice and the tag as
  they were.
\<close>

theorem RemoveIndexes_retains:
  assumes "\<forall>idx \<in> set indexes. 0 \<le> idx \<and>
             idx < int (if DataType series = ''float'' then length (Float series)
                        else length (String series))"
  shows "\<exists>series'. RemoveIndexes indexes series = Inr series'
     \<and> DataType series' = DataType series
     \<and> (DataType series = ''float'' \<longrightarrow>
          Float series' = map (\<lambda>idx. Float series ! nat idx) indexes
          \<and> String series' = String series)
     \<and> (DataType series \<noteq> ''float'' \<longrightarrow>
          String series' = map (\<lambda>idx. String series ! nat idx) indexes
          \<and> Float series' = Float series)"
proof (cases "DataType series = ''float''")
  case True
  then have "gather (Float series) indexes = Inr (map (\<lambda>idx. Float series ! nat idx) indexes)"
    using assms by (intro gather_in_bounds) simp
  then show ?thesis using True by (simp add: RemoveIndexes_def)
next
  case False
  then have "gather (String series) indexes = Inr (map (\<lambda>idx. String series ! nat idx) indexes)"
    using assms by (intro gather_in_bounds) simp
  then show ?thesis using False by (simp add: RemoveIndexes_def)
qed

theorem RemoveIndexes_retains_witness:
  "RemoveIndexes [3, 1, 1]
     \<lparr>Float = [10, 20, 30, 40 :: real], String = [''a''], DataType = ''float''\<rparr>
   = Inr \<lparr>Float = [40, 20, 20], String = [''a''], DataType = ''float''\<rparr>
   \<and> RemoveIndexes [0, 0]
     \<lparr>Float = [10 :: real], String = [''a'', ''b''], DataType = ''string''\<rparr>
   = Inr \<lparr>Float = [10], String = [''a'', ''a''], DataType = ''string''\<rparr>"
proof -
  let ?s = "\<lparr>Float = [10, 20, 30, 40 :: real], String = [''a''], DataType = ''float''\<rparr>"
  let ?t = "\<lparr>Float = [10 :: real], String = [''a'', ''b''], DataType = ''string''\<rparr>"
  have "\<forall>idx \<in> set [3, 1, 1 :: int]. 0 \<le> idx \<and>
          idx < int (if DataType ?s = ''float'' then length (Float ?s) else length (String ?s))"
    by simp
  from RemoveIndexes_retains[OF this]
  obtain s' where s': "RemoveIndexes [3, 1, 1] ?s = Inr s'" "DataType s' = ''float''"
     "Float s' = [40, 20, 20]" "String s' = [''a'']"
    by auto
  have a: "RemoveIndexes [3, 1, 1] ?s
             = Inr \<lparr>Float = [40, 20, 20], String = [''a''], DataType = ''float''\<rparr>"
    using s' by (cases s') simp
  have "\<forall>idx \<in> set [0, 0 :: int]. 0 \<le> idx \<and>
          idx < int (if DataType ?t = ''float'' then length (Float ?t) else length (String ?t))"
    by simp
  from RemoveIndexes_retains[OF this]
  obtain t' where t': "RemoveIndexes [0, 0] ?t = Inr t'" "DataType t' = ''string''"
     "Float t' = [10]" "String t' = [''a'', ''a'']"
    by auto
  have b: "RemoveIndexes [0, 0] ?t
             = Inr \<lparr>Float = [10], String = [''a'', ''a''], DataType = ''string''\<rparr>"
    using t' by (cases t') simp
  show ?thesis using a b by (intro conjI)
qed

section \<open>Converting to the variant the tag already names\<close>

text \<open>
  Claim C10. \<open>ConvertStringToFloat\<close> on a Series tagged "float" and
  \<open>ConvertFloatToString\<close> on a Series tagged "string" return at once: \<open>Float\<close>, \<open>String\<close>
  and \<open>DataType\<close> are unchanged (and nothing is printed).
\<close>

theorem convert_to_active_variant_is_identity:
  "(DataType series = ''float'' \<longrightarrow>
      ConvertStringToFloat numGoroutines ParseFloat sched series = (series, None))
   \<and> (DataType series = ''string'' \<longrightarrow>
      ConvertFloatToString numGoroutines FormatFloat series = series)"
  by (simp add: ConvertStringToFloat_def ConvertFloatToString_def)

theorem convert_to_active_variant_is_identity_witness:
  "ConvertStringToFloat 2 (\<lambda>s. Inl (NumError ''ParseFloat'' s ErrSyntax)) [1, 0]
      \<lparr>Float = [1, 2 :: real], String = [], DataType = ''float''\<rparr>
     = (\<lparr>Float = [1, 2], String = [], DataType = ''float''\<rparr>, None)
   \<and> ConvertFloatToString 2 (\<lambda>x. ''?'')
      \<lparr>Float = [] :: real list, String = [''a'', ''b''], DataType = ''string''\<rparr>
     = \<lparr>Float = [], String = [''a'', ''b''], DataType = ''string''\<rparr>"
proof -
  let ?s = "\<lparr>Float = [1, 2 :: real], String = [], DataType = ''float''\<rparr>"
  let ?t = "\<lparr>Float = [] :: real list, String = [''a'', ''b''], DataType = ''string''\<rparr>"
  have a: "DataType ?s = ''float''" by simp
  have b: "DataType ?t = ''string''" by simp
  show ?thesis
    using convert_to_active_variant_is_identity[of ?s, THEN conjunct1, rule_format, OF a]
          convert_to_active_variant_is_identity[of ?t, THEN conjunct2, rule_format, OF b]
    by (intro conjI)
qed

section \<open>FilterFloatSeries: what is returned and what is kept\<close>

lemma mset_concat_map_perm:
  assumes "mset xs = mset ys"
  shows "mset (concat (map f xs)) = mset (concat (map f ys))"
proof -
  have "mset (concat (map f zs)) = sum_mset (image_mset (\<lambda>z. mset (f z)) (mset zs))" for zs
    by (induction zs) simp_all
  then show ?thesis using assms by simp
qed

lemma filter_via_indexes:
  "map (\<lambda>j. xs ! j) (filter (\<lambda>j. p (xs ! j)) [0 ..< length xs]) = filter p xs"
proof -
  have "filter p (map ((!) xs) [0 ..< length xs])
          = map ((!) xs) (filter (p \<circ> (!) xs) [0 ..< length xs])"
    by (rule filter_map)
  then show ?thesis by (simp add: map_nth comp_def)
qed

lemma localFiltered_concat_ordered:
  assumes "1 \<le> P"
  shows "concat (map (\<lambda>i. localFiltered cond floats (filterChunk L P i)) [0 ..< P])
           = map int (filter (\<lambda>j. cond (floats ! j)) [0 ..< L])"
proof -
  let ?r = "\<lambda>i. [fst (filterChunk L P i) ..< snd (filterChunk L P i)]"
  let ?p = "\<lambda>j. cond (floats ! j)"
  have "concat (map (\<lambda>i. localFiltered cond floats (filterChunk L P i)) [0 ..< P])
          = concat (map (\<lambda>xs. map int (filter ?p xs)) (map ?r [0 ..< P]))"
    by (simp add: localFiltered_def comp_def)
  also have "\<dots> = map int (filter ?p (concat (map ?r [0 ..< P])))"
    by (simp add: map_concat filter_concat comp_def)
  finally show ?thesis using upt_chunks[OF assms, of L] by simp
qed

lemma localFiltered_in_bounds:
  assumes "idx \<in> set (localFiltered cond floats (filterChunk L P i))"
  shows "0 \<le> idx \<and> idx < int L"
  using assms by (auto simp: localFiltered_def filterChunk_min)

lemma FilterFloatSeries_result:
  fixes series :: "'f Series" and cond :: "'f \<Rightarrow> bool" and P :: nat and arrival :: "nat list"
  assumes "DataType series = ''float''"
  defines "idxs \<equiv> concat (map (\<lambda>i. localFiltered cond (Float series)
                      (filterChunk (length (Float series)) P i)) arrival)"
  shows "FilterFloatSeries P arrival cond series =
           (if Float series = [] then Inr ([], series)
            else Inr (idxs, series\<lparr>Float := map (\<lambda>idx. Float series ! nat idx) idxs\<rparr>))"
proof (cases "Float series = []")
  case True
  then show ?thesis using assms(1) by (simp add: FilterFloatSeries_def GetLength_def)
next
  case False
  have "\<forall>idx \<in> set idxs. 0 \<le> idx \<and> idx < int (length (Float series))"
    unfolding idxs_def using localFiltered_in_bounds by fastforce
  then have "gather (Float series) idxs = Inr (map (\<lambda>idx. Float series ! nat idx) idxs)"
    by (rule gather_in_bounds)
  then show ?thesis using assms(1) False
    by (simp add: FilterFloatSeries_def GetLength_def RemoveIndexes_def Let_def idxs_def)
qed

lemma FilterFloatSeries_general:
  fixes series :: "'f Series"
  assumes ty: "DataType series = ''float''" and P: "1 \<le> P"
    and perm: "mset arrival = mset [0 ..< P]"
  shows "\<exists>idxs series'. FilterFloatSeries P arrival cond series = Inr (idxs, series')
    \<and> idxs = concat (map (\<lambda>i. localFiltered cond (Float series)
                               (filterChunk (length (Float series)) P i)) arrival)
    \<and> mset idxs = mset (map int (filter (\<lambda>j. cond (Float series ! j))
                                         [0 ..< length (Float series)]))
    \<and> Float series' = map (\<lambda>idx. Float series ! nat idx) idxs
    \<and> mset (Float series') = mset (filter cond (Float series))
    \<and> String series' = String series
    \<and> DataType series' = DataType series
    \<and> (arrival = [0 ..< P] \<longrightarrow>
          idxs = map int (filter (\<lambda>j. cond (Float series ! j)) [0 ..< length (Float series)])
          \<and> Float series' = filter cond (Float series))"
proof -
  let ?L = "length (Float series)"
  let ?p = "\<lambda>j. cond (Float series ! j)"
  let ?f = "\<lambda>i. localFiltered cond (Float series) (filterChunk ?L P i)"
  define idxs where "idxs = concat (map ?f arrival)"
  define series' where
    "series' = (if Float series = [] then series
                else series\<lparr>Float := map (\<lambda>idx. Float series ! nat idx) idxs\<rparr>)"
  have empty: "idxs = []" if "Float series = []"
    using that by (auto simp: idxs_def localFiltered_def filterChunk_min)
  have res: "FilterFloatSeries P arrival cond series = Inr (idxs, series')"
    using FilterFloatSeries_result[OF ty, of P arrival cond] empty
    by (simp add: idxs_def series'_def)
  have m: "mset idxs = mset (map int (filter ?p [0 ..< ?L]))"
    unfolding idxs_def
    using mset_concat_map_perm[OF perm, of ?f] localFiltered_concat_ordered[OF P, of cond "Float series" ?L]
    by simp
  have fl: "Float series' = map (\<lambda>idx. Float series ! nat idx) idxs"
    using empty by (simp add: series'_def)
  have "mset (Float series') = image_mset (\<lambda>idx. Float series ! nat idx) (mset idxs)"
    by (simp add: fl)
  also have "\<dots> = mset (map (\<lambda>idx. Float series ! nat idx) (map int (filter ?p [0 ..< ?L])))"
    by (simp only: m mset_map)
  also have "\<dots> = mset (filter cond (Float series))"
    by (simp add: comp_def filter_via_indexes)
  finally have mf: "mset (Float series') = mset (filter cond (Float series))" .
  have ord: "idxs = map int (filter ?p [0 ..< ?L]) \<and> Float series' = filter cond (Float series)"
    if "arrival = [0 ..< P]"
  proof -
    have i: "idxs = map int (filter ?p [0 ..< ?L])"
      using that localFiltered_concat_ordered[OF P, of cond "Float series" ?L]
      by (simp add: idxs_def)
    have "Float series' = map (\<lambda>idx. Float series ! nat idx) (map int (filter ?p [0 ..< ?L]))"
      using fl i by simp
    also have "\<dots> = filter cond (Float series)"
      by (simp add: comp_def filter_via_indexes)
    finally show ?thesis using i by simp
  qed
  have st: "String series' = String series" "DataType series' = DataType series"
    by (simp_all add: series'_def)
  show ?thesis
    using res m fl mf st ord unfolding idxs_def[symmetric] by blast
qed

lemma example_filter: "filter above15 (Float exampleSeries) = [20, 30, 40, 50]"
  by (simp add: exampleSeries_def above15_def)

lemma example_indexes:
  "map int (filter (\<lambda>j. above15 (Float exampleSeries ! j))
                   [0 ..< length (Float exampleSeries)]) = [1, 2, 3, 4]"
  by (simp add: exampleSeries_def above15_def upt_conv_Cons)

text \<open>
  Claim C2, as amended. For every Series tagged "float", every predicate and every worker
  count \<open>P \<ge> 1\<close>, \<open>FilterFloatSeries\<close> returns the per-chunk ascending lists of matching
  pre-compaction indexes concatenated in the order in which the workers' results arrive
  on the channel: every matching index exactly once, ascending overall when the results
  arrive in chunk order. The Series is left with the elements at the returned indexes,
  in the returned order, so with exactly the matching elements (as a multiset), in
  their original relative order when the results arrive in chunk order; \<open>String\<close> and
  the tag are unchanged. For \<open>[10, 20, 30, 40, 50]\<close> and "> 15", for every worker count
  (1 to 8 included), the index set is \<open>{1, 2, 3, 4}\<close> and the Series holds
  \<open>20, 30, 40, 50\<close> in arrival order, which is \<open>[20, 30, 40, 50]\<close> with indexes
  \<open>[1, 2, 3, 4]\<close> when the results arrive in chunk order.
\<close>

theorem FilterFloatSeries_arrival_order:
  fixes series :: "'f Series"
  assumes ty: "DataType series = ''float''" and P: "1 \<le> P"
    and perm: "mset arrival = mset [0 ..< P]"
  shows "(\<exists>idxs series'. FilterFloatSeries P arrival cond series = Inr (idxs, series')
      \<and> idxs = concat (map (\<lambda>i. localFiltered cond (Float series)
                                 (filterChunk (length (Float series)) P i)) arrival)
      \<and> mset idxs = mset (map int (filter (\<lambda>j. cond (Float series ! j))
                                           [0 ..< length (Float series)]))
      \<and> Float series' = map (\<lambda>idx. Float series ! nat idx) idxs
      \<and> mset (Float series') = mset (filter cond (Float series))
      \<and> String series' = String series
      \<and> DataType series' = DataType series
      \<and> (arrival = [0 ..< P] \<longrightarrow>
            idxs = map int (filter (\<lambda>j. cond (Float series ! j)) [0 ..< length (Float series)])
            \<and> Float series' = filter cond (Float series)))
    \<and> (\<exists>idxs series'. FilterFloatSeries P arrival above15 exampleSeries = Inr (idxs, series')
      \<and> set idxs = {1, 2, 3, 4}
      \<and> distinct idxs
      \<and> Float series' = map (\<lambda>idx. Float exampleSeries ! nat idx) idxs
      \<and> mset (Float series') = mset [20, 30, 40, 50]
      \<and> String series' = []
      \<and> DataType series' = ''float''
      \<and> (arrival = [0 ..< P] \<longrightarrow> idxs = [1, 2, 3, 4] \<and> Float series' = [20, 30, 40, 50]))"
proof (rule conjI)
  show "\<exists>idxs series'. FilterFloatSeries P arrival cond series = Inr (idxs, series')
      \<and> idxs = concat (map (\<lambda>i. localFiltered cond (Float series)
                                 (filterChunk (length (Float series)) P i)) arrival)
      \<and> mset idxs = mset (map int (filter (\<lambda>j. cond (Float series ! j))
                                           [0 ..< length (Float series)]))
      \<and> Float series' = map (\<lambda>idx. Float series ! nat idx) idxs
      \<and> mset (Float series') = mset (filter cond (Float series))
      \<and> String series' = String series
      \<and> DataType series' = DataType series
      \<and> (arrival = [0 ..< P] \<longrightarrow>
            idxs = map int (filter (\<lambda>j. cond (Float series ! j)) [0 ..< length (Float series)])
            \<and> Float series' = filter cond (Float series))"
    by (rule FilterFloatSeries_general[OF ty P perm])
next
  have ety: "DataType exampleSeries = ''float''" by (simp add: exampleSeries_def)
  from FilterFloatSeries_general[OF ety P perm, of above15]
  obtain idxs series' where
    r: "FilterFloatSeries P arrival above15 exampleSeries = Inr (idxs, series')"
    and m: "mset idxs = mset (map int (filter (\<lambda>j. above15 (Float exampleSeries ! j))
                                             [0 ..< length (Float exampleSeries)]))"
    and f: "Float series' = map (\<lambda>idx. Float exampleSeries ! nat idx) idxs"
    and mf: "mset (Float series') = mset (filter above15 (Float exampleSeries))"
    and s: "String series' = String exampleSeries"
    and d: "DataType series' = DataType exampleSeries"
    and o: "arrival = [0 ..< P] \<longrightarrow>
            idxs = map int (filter (\<lambda>j. above15 (Float exampleSeries ! j))
                                   [0 ..< length (Float exampleSeries)])
            \<and> Float series' = filter above15 (Float exampleSeries)"
    by blast
  have m': "mset idxs = mset [1, 2, 3, 4]" using m by (simp only: example_indexes)
  have "set idxs = set [1, 2, 3, 4 :: int]" using m' by (rule mset_eq_setD)
  then have st: "set idxs = {1, 2, 3, 4}" by simp
  have "distinct [1, 2, 3, 4 :: int]" by simp
  then have di: "distinct idxs" using m' by (metis mset_eq_imp_distinct_iff)
  have mf': "mset (Float series') = mset [20, 30, 40, 50]"
    using mf by (simp only: example_filter)
  have s': "String series' = []" using s by (simp add: exampleSeries_def)
  have d': "DataType series' = ''float''" using d by (simp add: exampleSeries_def)
  have o': "arrival = [0 ..< P] \<longrightarrow> idxs = [1, 2, 3, 4] \<and> Float series' = [20, 30, 40, 50]"
    using o by (simp only: example_indexes example_filter)
  show "\<exists>idxs series'. FilterFloatSeries P arrival above15 exampleSeries = Inr (idxs, series')
      \<and> set idxs = {1, 2, 3, 4}
      \<and> distinct idxs
      \<and> Float series' = map (\<lambda>idx. Float exampleSeries ! nat idx) idxs
      \<and> mset (Float series') = mset [20, 30, 40, 50]
      \<and> String series' = []
      \<and> DataType series' = ''float''
      \<and> (arrival = [0 ..< P] \<longrightarrow> idxs = [1, 2, 3, 4] \<and> Float series' = [20, 30, 40, 50])"
    using r st di f mf' s' d' o' by blast
qed

theorem FilterFloatSeries_arrival_order_witness:
  "DataType exampleSeries = ''float'' \<and> (1::nat) \<le> 3 \<and> mset [2, 0, 1] = mset [0 ..< (3::nat)]
   \<and> FilterFloatSeries 3 [2, 0, 1] above15 exampleSeries
       = Inr ([4, 1, 2, 3], \<lparr>Float = [50, 20, 30, 40], String = [], DataType = ''float''\<rparr>)
   \<and> (\<exists>idxs series'. FilterFloatSeries 3 [2, 0, 1] above15 exampleSeries = Inr (idxs, series')
        \<and> set idxs = {1, 2, 3, 4} \<and> mset (Float series') = mset [20, 30, 40, 50])"
proof -
  have ty: "DataType exampleSeries = ''float''" by (simp add: exampleSeries_def)
  have P: "(1::nat) \<le> 3" by simp
  have perm: "mset [2, 0, 1] = mset [0 ..< (3::nat)]" by (simp add: upt_conv_Cons)
  have run: "FilterFloatSeries 3 [2, 0, 1] above15 exampleSeries
       = Inr ([4, 1, 2, 3], \<lparr>Float = [50, 20, 30, 40], String = [], DataType = ''float''\<rparr>)"
    by (simp add: FilterFloatSeries_def GetLength_def filterChunk_def chunkSize_def Let_def
          localFiltered_def RemoveIndexes_def above15_def exampleSeries_def upt_conv_Cons)
  have "\<exists>idxs series'. FilterFloatSeries 3 [2, 0, 1] above15 exampleSeries = Inr (idxs, series')
        \<and> set idxs = {1, 2, 3, 4} \<and> mset (Float series') = mset [20, 30, 40, 50]"
    using FilterFloatSeries_arrival_order[OF ty P perm, of above15, THEN conjunct2] by blast
  then show ?thesis using ty P perm run by (intro conjI)
qed

text \<open>
  With two workers and the second worker's result arriving first, the returned indexes
  are not ascending and the Series is not \<open>[20, 30, 40, 50]\<close>.
\<close>

theorem FilterFloatSeries_order_counterexample:
  "mset [1, 0] = mset [0 ..< (2::nat)]
   \<and> FilterFloatSeries 2 [1, 0] above15 exampleSeries
       = Inr ([3, 4, 1, 2], \<lparr>Float = [40, 50, 20, 30], String = [], DataType = ''float''\<rparr>)
   \<and> \<not> sorted [3, 4, 1, 2 :: int]
   \<and> [40, 50, 20, 30] \<noteq> [20, 30, 40, 50 :: real]"
proof -
  have "mset [1, 0] = mset [0 ..< (2::nat)]" by (simp add: upt_conv_Cons)
  moreover have "FilterFloatSeries 2 [1, 0] above15 exampleSeries
       = Inr ([3, 4, 1, 2], \<lparr>Float = [40, 50, 20, 30], String = [], DataType = ''float''\<rparr>)"
    by (simp add: FilterFloatSeries_def GetLength_def filterChunk_def chunkSize_def Let_def
          localFiltered_def RemoveIndexes_def above15_def exampleSeries_def upt_conv_Cons)
  moreover have "\<not> sorted [3, 4, 1, 2 :: int]" by simp
  moreover have "[40, 50, 20, 30] \<noteq> [20, 30, 40, 50 :: real]" by simp
  ultimately show ?thesis by (intro conjI)
qed

section \<open>Executions of ConvertStringToFloat\<close>

lemma workerStep_length [simp]:
  "length (workers (workerStep pf strs P w st)) = length (workers st)"
  by (simp add: workerStep_def split: pc.splits sum.splits)

lemma workerStep_other:
  "w' \<noteq> w \<Longrightarrow> workers (workerStep pf strs P w st) ! w' = workers st ! w'"
  by (simp add: workerStep_def split: pc.splits sum.splits)

lemma workerStep_Returned:
  "workers st ! w = Returned \<Longrightarrow> workerStep pf strs P w st = st"
  by (simp add: workerStep_def)

lemma workerStep_keeps_Returned:
  "workers st ! w' = Returned \<Longrightarrow> workers (workerStep pf strs P w st) ! w' = Returned"
  by (cases "w' = w") (simp_all add: workerStep_Returned workerStep_other)

lemma workerStep_measure:
  assumes "w < length (workers st)" "workers st ! w \<noteq> Returned"
  shows "pcMeasure (snd (convertChunk (length strs) P w)) (workers (workerStep pf strs P w st) ! w)
           < pcMeasure (snd (convertChunk (length strs) P w)) (workers st ! w)"
  using assms
  by (cases "workers st ! w") (auto simp: workerStep_def pcMeasure_def split: sum.splits)

lemma okUpto_Suc:
  "okUpto pf strs a j \<Longrightarrow> \<not> isl (pf (strs ! j)) \<Longrightarrow> okUpto pf strs a (Suc j)"
  by (auto simp: okUpto_def less_Suc_eq)

lemma okUpto_shrink: "okUpto pf strs a j \<Longrightarrow> b \<le> j \<Longrightarrow> okUpto pf strs a b"
  by (auto simp: okUpto_def)

lemma workerInv_other:
  assumes "workerInv pf strs P fe w' p" "fe \<noteq> None \<longrightarrow> fe' \<noteq> None"
  shows "workerInv pf strs P fe' w' p"
  using assms by (auto simp: workerInv_def Let_def split: pc.splits)

lemma convInv_step:
  assumes inv: "convInv pf strs P st"
  shows "convInv pf strs P (workerStep pf strs P w st)"
proof (cases "w < P \<and> workers st ! w \<noteq> Returned")
  case False
  then have "workerStep pf strs P w st = st"
    using inv by (auto simp: workerStep_def convInv_def)
  then show ?thesis using inv by simp
next
  case True
  let ?st' = "workerStep pf strs P w st"
  let ?c = "convertChunk (length strs) P w"
  from inv have len: "length (workers st) = P"
    and wi: "\<And>v. v < P \<Longrightarrow> workerInv pf strs P (firstErr st) v (workers st ! v)"
    and eo: "\<And>e. firstErr st = Some e \<Longrightarrow> errOrigin pf strs P e"
    by (auto simp: convInv_def)
  from True have w: "w < P" and nr: "workers st ! w \<noteq> Returned" by simp_all
  have mono: "firstErr st \<noteq> None \<longrightarrow> firstErr ?st' \<noteq> None"
    by (auto simp: workerStep_def split: pc.splits sum.splits)
  have others: "workerInv pf strs P (firstErr ?st') v (workers ?st' ! v)" if "v < P" "v \<noteq> w" for v
    using workerInv_other[OF wi[OF that(1)] mono] that(2) by (simp add: workerStep_other)
  have self: "workerInv pf strs P (firstErr ?st') w (workers ?st' ! w)"
  proof (cases "workers st ! w")
    case Returned
    then show ?thesis using nr by simp
  next
    case (AtLoop j)
    from wi[OF w] AtLoop have a: "fst ?c \<le> j" "okUpto pf strs (fst ?c) j"
      "2 * (snd ?c - j) + 1 \<le> 2 * length strs + 1"
      by (auto simp: workerInv_def Let_def pcMeasure_def)
    show ?thesis
    proof (cases "j < snd ?c")
      case True
      then show ?thesis using AtLoop a w len
        by (auto simp: workerStep_def workerInv_def Let_def pcMeasure_def)
    next
      case False
      then have "okUpto pf strs (fst ?c) (snd ?c)" using a(2) okUpto_shrink by fastforce
      then show ?thesis using AtLoop False w len
        by (auto simp: workerStep_def workerInv_def Let_def pcMeasure_def)
    qed
  next
    case (AtParse j)
    from wi[OF w] AtParse have a: "fst ?c \<le> j" "j < snd ?c" "okUpto pf strs (fst ?c) j"
      "2 * (snd ?c - Suc j) + 2 \<le> 2 * length strs + 1"
      by (auto simp: workerInv_def Let_def pcMeasure_def)
    show ?thesis
    proof (cases "pf (strs ! j)")
      case (Inl err)
      then show ?thesis using AtParse w len
        by (auto simp: workerStep_def workerInv_def Let_def pcMeasure_def split: option.splits)
    next
      case (Inr v)
      then have "okUpto pf strs (fst ?c) (Suc j)" using a(3) by (intro okUpto_Suc) simp_all
      then show ?thesis using AtParse Inr a w len
        by (auto simp: workerStep_def workerInv_def Let_def pcMeasure_def)
    qed
  qed
  have err: "errOrigin pf strs P e" if h: "firstErr ?st' = Some e" for e
  proof (cases "firstErr st")
    case (Some e0)
    then have "firstErr ?st' = Some e0"
      by (auto simp: workerStep_def split: pc.splits sum.splits)
    then show ?thesis using h eo[OF Some] by simp
  next
    case None
    then obtain j where j: "workers st ! w = AtParse j" "pf (strs ! j) = Inl e"
      using h by (auto simp: workerStep_def split: pc.splits sum.splits if_splits)
    from wi[OF w] j(1) have "fst ?c \<le> j" "j < snd ?c" "okUpto pf strs (fst ?c) j"
      by (auto simp: workerInv_def Let_def)
    then show ?thesis using j(2) w unfolding errOrigin_def chunkRange_def
      by (intro exI[of _ w] exI[of _ j]) simp
  qed
  show ?thesis
    unfolding convInv_def
  proof (intro conjI allI impI)
    show "length (workers ?st') = P" using len by simp
    show "workerInv pf strs P (firstErr ?st') v (workers ?st' ! v)" if "v < P" for v
      using that self others by (cases "v = w") simp_all
    show "errOrigin pf strs P e" if "firstErr ?st' = Some e" for e
      using that by (rule err)
  qed
qed

lemma convInv_funpow:
  "convInv pf strs P st \<Longrightarrow> convInv pf strs P ((workerStep pf strs P w ^^ n) st)"
  by (induction n) (simp_all add: convInv_step)

lemma convInv_runSched:
  "convInv pf strs P st \<Longrightarrow> convInv pf strs P (runSched pf strs P sched st)"
  unfolding runSched_def by (induction sched arbitrary: st) (simp_all add: convInv_step)

lemma funpow_keeps_Returned:
  "workers st ! w' = Returned \<Longrightarrow> workers ((workerStep pf strs P w ^^ n) st) ! w' = Returned"
  by (induction n) (simp_all add: workerStep_keeps_Returned)

lemma funpow_returns:
  assumes "w < length (workers st)"
    "pcMeasure (snd (convertChunk (length strs) P w)) (workers st ! w) \<le> n"
  shows "workers ((workerStep pf strs P w ^^ n) st) ! w = Returned"
  using assms
proof (induction n arbitrary: st)
  case 0
  then show ?case by (cases "workers st ! w") (simp_all add: pcMeasure_def)
next
  case (Suc n)
  let ?st' = "workerStep pf strs P w st"
  have "workers ((workerStep pf strs P w ^^ n) ?st') ! w = Returned"
  proof (cases "workers st ! w = Returned")
    case True
    then show ?thesis by (simp add: workerStep_Returned funpow_keeps_Returned)
  next
    case False
    from workerStep_measure[OF Suc.prems(1) False, of strs P pf] Suc.prems(2)
    have "pcMeasure (snd (convertChunk (length strs) P w)) (workers ?st' ! w) \<le> n" by simp
    then show ?thesis using Suc.prems(1) by (intro Suc.IH) simp_all
  qed
  then show ?case by (simp add: funpow_swap1)
qed

lemma waitAll_fold_inv:
  "convInv pf strs P st \<Longrightarrow>
   convInv pf strs P (fold (\<lambda>w. workerStep pf strs P w ^^ n) ws st)"
  by (induction ws arbitrary: st) (simp_all add: convInv_funpow)

lemma convInv_measure:
  "convInv pf strs P st \<Longrightarrow> w < P \<Longrightarrow>
   pcMeasure (snd (convertChunk (length strs) P w)) (workers st ! w) \<le> 2 * length strs + 1"
  by (simp add: convInv_def workerInv_def Let_def)

lemma waitAll_fold_returns:
  assumes "convInv pf strs P st" "w \<in> set ws" "w < P" "2 * length strs + 1 \<le> n"
  shows "workers (fold (\<lambda>w. workerStep pf strs P w ^^ n) ws st) ! w = Returned"
  using assms(2)
proof (induction ws rule: rev_induct)
  case Nil
  then show ?case by simp
next
  case (snoc v ws)
  let ?mid = "fold (\<lambda>w. workerStep pf strs P w ^^ n) ws st"
  have inv: "convInv pf strs P ?mid" using assms(1) by (rule waitAll_fold_inv)
  have unf: "fold (\<lambda>w. workerStep pf strs P w ^^ n) (ws @ [v]) st
               = (workerStep pf strs P v ^^ n) ?mid"
    by simp
  show ?case
  proof (cases "w = v")
    case True
    have "w < length (workers ?mid)" using inv assms(3) by (simp add: convInv_def)
    moreover have "pcMeasure (snd (convertChunk (length strs) P w)) (workers ?mid ! w) \<le> n"
      using convInv_measure[OF inv assms(3)] assms(4) by (rule le_trans)
    ultimately have "workers ((workerStep pf strs P w ^^ n) ?mid) ! w = Returned"
      by (rule funpow_returns)
    then show ?thesis using True unf by simp
  next
    case False
    then have "w \<in> set ws" using snoc.prems by simp
    then have "workers ?mid ! w = Returned" by (rule snoc.IH)
    then have "workers ((workerStep pf strs P v ^^ n) ?mid) ! w = Returned"
      by (rule funpow_keeps_Returned)
    then show ?thesis using unf by simp
  qed
qed

lemma convInv_waitAll:
  "convInv pf strs P st \<Longrightarrow> convInv pf strs P (waitAll pf strs P st)"
  unfolding waitAll_def by (rule waitAll_fold_inv)

lemma waitAll_returns:
  "convInv pf strs P st \<Longrightarrow> w < P \<Longrightarrow> workers (waitAll pf strs P st) ! w = Returned"
  unfolding waitAll_def by (rule waitAll_fold_returns) simp_all

lemma convInv_init:
  "convInv pf strs P \<lparr>firstErr = None, floatArray = fa,
      workers = map (\<lambda>i. AtLoop (fst (convertChunk (length strs) P i))) [0 ..< P]\<rparr>"
  by (auto simp: convInv_def workerInv_def Let_def pcMeasure_def okUpto_def
        convertChunk_eq filterChunk_min)

lemma all_parse_when_no_error:
  assumes inv: "convInv pf strs P st" and P: "1 \<le> P"
    and ret: "\<And>w. w < P \<Longrightarrow> workers st ! w = Returned"
    and none: "firstErr st = None"
    and k: "k < length strs"
  shows "\<not> isl (pf (strs ! k))"
proof -
  have "k \<in> (\<Union>i<P. chunkRange (filterChunk (length strs) P i))"
    using k by (simp only: chunk_union[OF P]) simp
  then obtain w where w: "w < P" "k \<in> chunkRange (filterChunk (length strs) P w)" by auto
  from inv w(1) ret[OF w(1)] none
  have "okUpto pf strs (fst (convertChunk (length strs) P w)) (snd (convertChunk (length strs) P w))"
    by (auto simp: convInv_def workerInv_def Let_def)
  then show ?thesis using w(2) by (simp add: okUpto_def chunkRange_def convertChunk_eq)
qed

lemma ConvertStringToFloat_failure:
  fixes series :: "('f::zero) Series"
  assumes ty: "DataType series \<noteq> ''float''" and P: "1 \<le> P"
    and bad: "\<exists>x \<in> set (String series). isl (pf x)"
  shows "\<exists>err. ConvertStringToFloat P pf sched series = (series, Some err)
           \<and> errOrigin pf (String series) P err"
proof -
  let ?strs = "String series"
  let ?init = "\<lparr>firstErr = None, floatArray = replicate (length ?strs) (0::'f),
               workers = map (\<lambda>i. AtLoop (fst (convertChunk (length ?strs) P i))) [0 ..< P]\<rparr>"
  let ?st = "waitAll pf ?strs P (runSched pf ?strs P sched ?init)"
  have inv1: "convInv pf ?strs P (runSched pf ?strs P sched ?init)"
    by (intro convInv_runSched convInv_init)
  have inv: "convInv pf ?strs P ?st" by (rule convInv_waitAll[OF inv1])
  have ret: "workers ?st ! w = Returned" if "w < P" for w
    using inv1 that by (rule waitAll_returns)
  from bad obtain k where k: "k < length ?strs" "isl (pf (?strs ! k))"
    by (auto simp: in_set_conv_nth)
  have "firstErr ?st \<noteq> None"
  proof
    assume "firstErr ?st = None"
    from all_parse_when_no_error[OF inv P ret this k(1)] k(2) show False by simp
  qed
  then obtain err where err: "firstErr ?st = Some err" by auto
  then have "errOrigin pf ?strs P err" using inv by (simp add: convInv_def)
  moreover have "ConvertStringToFloat P pf sched series = (series, Some err)"
    using ty err by (simp add: ConvertStringToFloat_def Let_def)
  ultimately show ?thesis by blast
qed









lemma parseDecimal_values:
  "parseDecimal ''x'' = Inl (NumError ''ParseFloat'' ''x'' ErrSyntax)"
  "parseDecimal ''y'' = Inl (NumError ''ParseFloat'' ''y'' ErrSyntax)"
  "parseDecimal ''1.5'' = Inr (3 / 2)"
  "parseDecimal ''2.0'' = Inr 2"
  "parseDecimal ''3'' = Inr 3"
  by code_simp+



text \<open>
  Claim C1. For every Series tagged "string" in which some element fails to parse, for
  every worker count \<open>numGoroutines \<ge> 1\<close> and every interleaving of the workers,
  \<open>ConvertStringToFloat\<close> leaves the Series as it was: \<open>String\<close>, \<open>Float\<close> and
  \<open>DataType\<close> are those before the call. (The workers write only the local
  \<^verbatim>\<open>floatArray\<close>, which is dropped.)
\<close>

theorem ConvertStringToFloat_failure_leaves_series:
  fixes series :: "('f::zero) Series"
  assumes "DataType series = ''string''" and "1 \<le> numGoroutines"
    and "\<exists>x \<in> set (String series). isl (ParseFloat x)"
  shows "fst (ConvertStringToFloat numGoroutines ParseFloat sched series) = series
     \<and> String (fst (ConvertStringToFloat numGoroutines ParseFloat sched series)) = String series
     \<and> Float (fst (ConvertStringToFloat numGoroutines ParseFloat sched series)) = Float series
     \<and> DataType (fst (ConvertStringToFloat numGoroutines ParseFloat sched series))
         = DataType series"
proof -
  have "DataType series \<noteq> ''float''" using assms(1) by simp
  from ConvertStringToFloat_failure[OF this assms(2,3), of sched]
  have "fst (ConvertStringToFloat numGoroutines ParseFloat sched series) = series" by auto
  then show ?thesis by simp
qed

theorem ConvertStringToFloat_failure_leaves_series_witness:
  "DataType mixedSeries = ''string'' \<and> (1::nat) \<le> 2
   \<and> (\<exists>x \<in> set (String mixedSeries). isl (parseDecimal x))
   \<and> fst (ConvertStringToFloat 2 parseDecimal [1, 0, 1, 0] mixedSeries) = mixedSeries
   \<and> String (fst (ConvertStringToFloat 2 parseDecimal [1, 0, 1, 0] mixedSeries))
       = [''1.5'', ''x'', ''3'']"
proof -
  have ty: "DataType mixedSeries = ''string''" by (simp add: mixedSeries_def)
  have P: "(1::nat) \<le> 2" by simp
  have "isl (parseDecimal ''x'')" by (simp add: parseDecimal_values)
  then have bad: "\<exists>x \<in> set (String mixedSeries). isl (parseDecimal x)"
    by (simp add: mixedSeries_def)
  note t = ConvertStringToFloat_failure_leaves_series[OF ty P bad, of "[1, 0, 1, 0]"]
  have a: "fst (ConvertStringToFloat 2 parseDecimal [1, 0, 1, 0] mixedSeries) = mixedSeries"
    by (rule t[THEN conjunct1])
  have b: "String (fst (ConvertStringToFloat 2 parseDecimal [1, 0, 1, 0] mixedSeries))
       = [''1.5'', ''x'', ''3'']"
    using t[THEN conjunct2, THEN conjunct1] by (simp add: mixedSeries_def)
  show ?thesis using ty P bad a b by (intro conjI)
qed









section \<open>ConvertStringToFloat when every element parses\<close>

lemma filledBelow_update_other:
  assumes "filledBelow pf strs P fa w' b" "j \<in> chunkRange (convertChunk (length strs) P w)" "w' \<noteq> w"
  shows "filledBelow pf strs P (fa[j := v]) w' b"
proof -
  have "k \<noteq> j" if "k \<in> chunkRange (convertChunk (length strs) P w')" for k
    using chunk_disjoint[OF assms(3), of "length strs" P] that assms(2)
    by (auto simp: convertChunk_eq)
  then have "fa[j := v] ! k = fa ! k" if "k \<in> chunkRange (convertChunk (length strs) P w')" for k
    using that by (metis nth_list_update_neq)
  then show ?thesis using assms(1) by (simp add: filledBelow_def)
qed

lemma filledBelow_update_self:
  assumes "filledBelow pf strs P fa w j" "j < length fa" "pf (strs ! j) = Inr v"
  shows "filledBelow pf strs P (fa[j := v]) w (Suc j)"
  using assms by (auto simp: filledBelow_def less_Suc_eq nth_list_update)

lemma filledBelow_end:
  assumes "filledBelow pf strs P fa w j" "\<not> j < snd (convertChunk (length strs) P w)"
  shows "filledBelow pf strs P fa w (snd (convertChunk (length strs) P w))"
  using assms by (auto simp: filledBelow_def chunkRange_def)

lemma succInv_step:
  assumes inv: "succInv pf strs P st" and ok: "\<And>k. k < length strs \<Longrightarrow> \<not> isl (pf (strs ! k))"
  shows "succInv pf strs P (workerStep pf strs P w st)"
proof (cases "w < P \<and> workers st ! w \<noteq> Returned")
  case False
  then have "workerStep pf strs P w st = st"
    using inv by (auto simp: workerStep_def succInv_def)
  then show ?thesis using inv by simp
next
  case True
  let ?c = "convertChunk (length strs) P w"
  let ?I = "\<lambda>fa v p. (case p of
               AtLoop j \<Rightarrow> fst (convertChunk (length strs) P v) \<le> j
                 \<and> filledBelow pf strs P fa v j
             | AtParse j \<Rightarrow> j \<in> chunkRange (convertChunk (length strs) P v)
                 \<and> filledBelow pf strs P fa v j
             | Returned \<Rightarrow> filledBelow pf strs P fa v (snd (convertChunk (length strs) P v)))"
  from inv have fe: "firstErr st = None" and lf: "length (floatArray st) = length strs"
    and lw: "length (workers st) = P"
    and wi: "\<And>v. v < P \<Longrightarrow> ?I (floatArray st) v (workers st ! v)"
    by (auto simp: succInv_def)
  from True have w: "w < P" by simp
  show ?thesis
  proof (cases "workers st ! w")
    case Returned
    then show ?thesis using True by simp
  next
    case (AtLoop j)
    from wi[OF w] AtLoop have lo: "fst ?c \<le> j"
      and fb: "filledBelow pf strs P (floatArray st) w j" by simp_all
    define p' where "p' = (if j < snd ?c then AtParse j else Returned)"
    have st': "workerStep pf strs P w st = st\<lparr>workers := (workers st)[w := p']\<rparr>"
      using AtLoop w lw fe by (simp add: workerStep_def p'_def)
    have self: "?I (floatArray st) w p'"
    proof (cases "j < snd ?c")
      case True
      then show ?thesis using lo fb by (simp add: p'_def chunkRange_def)
    next
      case False
      then show ?thesis using filledBelow_end[OF fb False] by (simp add: p'_def)
    qed
    have "?I (floatArray st) v ((workers st)[w := p'] ! v)" if "v < P" for v
    proof (cases "v = w")
      case True
      have "(workers st)[w := p'] ! w = p'" using lw w by simp
      then show ?thesis using self unfolding True by simp
    next
      case False
      then show ?thesis using wi[OF that] by simp
    qed
    then show ?thesis unfolding st' succInv_def using fe lf lw by (simp cong: pc.case_cong)
  next
    case (AtParse j)
    from wi[OF w] AtParse have jc: "j \<in> chunkRange ?c"
      and fb: "filledBelow pf strs P (floatArray st) w j" by simp_all
    have jl: "j < length strs" using jc by (rule chunkRange_below_length)
    from ok[OF jl] obtain val where val: "pf (strs ! j) = Inr val"
      by (cases "pf (strs ! j)") simp_all
    let ?fa = "(floatArray st)[j := val]"
    have st': "workerStep pf strs P w st =
                 st\<lparr>floatArray := ?fa, workers := (workers st)[w := AtLoop (j + 1)]\<rparr>"
      using AtParse w lw val by (simp add: workerStep_def)
    have self: "?I ?fa w (AtLoop (j + 1))"
      using filledBelow_update_self[OF fb _ val] jl lf jc by (simp add: chunkRange_def)
    have other: "?I ?fa v (workers st ! v)" if "v < P" "v \<noteq> w" for v
    proof (cases "workers st ! v")
      case (AtLoop i)
      then show ?thesis using wi[OF that(1)] filledBelow_update_other[OF _ jc that(2)] by auto
    next
      case (AtParse i)
      then show ?thesis using wi[OF that(1)] filledBelow_update_other[OF _ jc that(2)] by auto
    next
      case Returned
      then show ?thesis using wi[OF that(1)] filledBelow_update_other[OF _ jc that(2)] by auto
    qed
    have "?I ?fa v ((workers st)[w := AtLoop (j + 1)] ! v)" if "v < P" for v
    proof (cases "v = w")
      case True
      then show ?thesis using self lw w by simp
    next
      case False
      then show ?thesis using other[OF that False] by simp
    qed
    then show ?thesis unfolding st' succInv_def using fe lf lw by (simp cong: pc.case_cong)
  qed
qed

lemma succInv_funpow:
  assumes "succInv pf strs P st" "\<And>k. k < length strs \<Longrightarrow> \<not> isl (pf (strs ! k))"
  shows "succInv pf strs P ((workerStep pf strs P w ^^ n) st)"
  using assms by (induction n) (simp_all add: succInv_step)

lemma succInv_runSched:
  assumes "succInv pf strs P st" "\<And>k. k < length strs \<Longrightarrow> \<not> isl (pf (strs ! k))"
  shows "succInv pf strs P (runSched pf strs P sched st)"
  using assms unfolding runSched_def
  by (induction sched arbitrary: st) (simp_all add: succInv_step)

lemma succInv_fold:
  assumes "succInv pf strs P st" "\<And>k. k < length strs \<Longrightarrow> \<not> isl (pf (strs ! k))"
  shows "succInv pf strs P (fold (\<lambda>w. workerStep pf strs P w ^^ n) ws st)"
  using assms by (induction ws arbitrary: st) (simp_all add: succInv_funpow)

lemma succInv_waitAll:
  assumes "succInv pf strs P st" "\<And>k. k < length strs \<Longrightarrow> \<not> isl (pf (strs ! k))"
  shows "succInv pf strs P (waitAll pf strs P st)"
  unfolding waitAll_def using assms by (rule succInv_fold)

lemma succInv_init:
  "succInv pf strs P \<lparr>firstErr = None, floatArray = replicate (length strs) z,
      workers = map (\<lambda>i. AtLoop (fst (convertChunk (length strs) P i))) [0 ..< P]\<rparr>"
  by (auto simp: succInv_def filledBelow_def chunkRange_def)

lemma succInv_final:
  assumes inv: "succInv pf strs P st" and P: "1 \<le> P"
    and ret: "\<And>w. w < P \<Longrightarrow> workers st ! w = Returned"
  shows "floatArray st = map (\<lambda>x. projr (pf x)) strs"
proof (rule nth_equalityI)
  show "length (floatArray st) = length (map (\<lambda>x. projr (pf x)) strs)"
    using inv by (simp add: succInv_def)
next
  fix k assume "k < length (floatArray st)"
  then have k: "k < length strs" using inv by (simp add: succInv_def)
  have "k \<in> (\<Union>i<P. chunkRange (filterChunk (length strs) P i))"
    using k by (simp only: chunk_union[OF P]) simp
  then obtain w where w: "w < P" "k \<in> chunkRange (convertChunk (length strs) P w)"
    by (auto simp: convertChunk_eq)
  from inv w(1) ret[OF w(1)]
  have "filledBelow pf strs P (floatArray st) w (snd (convertChunk (length strs) P w))"
    by (auto simp: succInv_def)
  then have "floatArray st ! k = projr (pf (strs ! k))"
    using w(2) by (simp add: filledBelow_def chunkRange_def)
  then show "floatArray st ! k = map (\<lambda>x. projr (pf x)) strs ! k" using k by simp
qed

lemma ConvertStringToFloat_success:
  fixes series :: "('f::zero) Series"
  assumes ty: "DataType series \<noteq> ''float''" and P: "1 \<le> P"
    and good: "\<forall>x \<in> set (String series). \<not> isl (pf x)"
  shows "ConvertStringToFloat P pf sched series
           = (series\<lparr>Float := map (\<lambda>x. projr (pf x)) (String series), String := []\<rparr>, None)"
proof -
  let ?strs = "String series"
  let ?init = "\<lparr>firstErr = None, floatArray = replicate (length ?strs) (0::'f),
               workers = map (\<lambda>i. AtLoop (fst (convertChunk (length ?strs) P i))) [0 ..< P]\<rparr>"
  let ?mid = "runSched pf ?strs P sched ?init"
  let ?fin = "waitAll pf ?strs P ?mid"
  have ok: "\<not> isl (pf (?strs ! k))" if "k < length ?strs" for k
    using good that by simp
  have c1: "convInv pf ?strs P ?mid" by (intro convInv_runSched convInv_init)
  have s1: "succInv pf ?strs P ?mid" using succInv_init ok by (rule succInv_runSched)
  have s2: "succInv pf ?strs P ?fin" using s1 ok by (rule succInv_waitAll)
  have ret: "workers ?fin ! w = Returned" if "w < P" for w
    using c1 that by (rule waitAll_returns)
  have fa: "floatArray ?fin = map (\<lambda>x. projr (pf x)) ?strs"
    using s2 P ret by (rule succInv_final)
  have fe: "firstErr ?fin = None" using s2 by (simp add: succInv_def)
  show ?thesis using ty fe fa by (simp add: ConvertStringToFloat_def Let_def)
qed

section \<open>ConvertFloatToString, and the conversion there and back\<close>

lemma fold_update_upt:
  "n \<le> length arr \<Longrightarrow>
   fold (\<lambda>j a. a[j := g j]) [0 ..< n] arr = map g [0 ..< n] @ drop n arr"
proof (induction n)
  case 0
  show ?case by simp
next
  case (Suc n)
  then have n: "n < length arr" by simp
  have "fold (\<lambda>j a. a[j := g j]) [0 ..< Suc n] arr
          = (map g [0 ..< n] @ drop n arr)[n := g n]"
    using Suc by simp
  also have "\<dots> = map g [0 ..< n] @ (drop n arr)[0 := g n]"
    by (simp add: list_update_append)
  also have "(drop n arr)[0 := g n] = g n # drop (Suc n) arr"
  proof -
    have "drop n arr = arr ! n # drop (Suc n) arr" using n by (simp add: Cons_nth_drop_Suc)
    then show ?thesis by simp
  qed
  finally show ?case by simp
qed


lemma formatChunks_fold:
  "fold (\<lambda>i. formatChunk F floats (convertChunk L P i)) is arr
     = fold (\<lambda>j a. a[j := F (floats ! j)])
            (concat (map (\<lambda>i. [fst (convertChunk L P i) ..< snd (convertChunk L P i)]) is)) arr"
proof (induction "is" arbitrary: arr)
  case Nil
  show ?case by simp
next
  case (Cons i "is")
  show ?case using Cons.IH by (simp add: formatChunk_def)
qed

lemma ConvertFloatToString_formats:
  assumes "DataType series \<noteq> ''string''" "1 \<le> P"
  shows "ConvertFloatToString P F series
           = series\<lparr>String := map F (Float series), Float := []\<rparr>"
proof -
  let ?L = "length (Float series)"
  have cat: "concat (map (\<lambda>i. [fst (convertChunk ?L P i) ..< snd (convertChunk ?L P i)]) [0 ..< P])
               = [0 ..< ?L]"
    by (simp only: convertChunk_eq upt_chunks[OF assms(2)])
  have "fold (\<lambda>i. formatChunk F (Float series) (convertChunk ?L P i)) [0 ..< P] (replicate ?L [])
          = fold (\<lambda>j a. a[j := F (Float series ! j)]) [0 ..< ?L] (replicate ?L [])"
    unfolding formatChunks_fold cat by (rule refl)
  also have "\<dots> = map (\<lambda>j. F (Float series ! j)) [0 ..< ?L]"
    by (simp add: fold_update_upt)
  also have "\<dots> = map F (map (\<lambda>j. Float series ! j) [0 ..< ?L])"
    by (simp add: comp_def)
  also have "\<dots> = map F (Float series)"
    by (simp only: map_nth)
  finally show ?thesis using assms(1) by (simp add: ConvertFloatToString_def Let_def)
qed

lemma roundtrip_never_formats:
  fixes series :: "('f::zero) Series"
  assumes "DataType series = ''string''"
  shows "ConvertFloatToString P F (fst (ConvertStringToFloat P pf sched series))
           = fst (ConvertStringToFloat P pf sched series)
       \<and> (String (fst (ConvertStringToFloat P pf sched series)) = String series
            \<or> String (fst (ConvertStringToFloat P pf sched series)) = [])"
  using assms
  by (auto simp: ConvertStringToFloat_def ConvertFloatToString_def Let_def split: option.splits)

text \<open>
  Claim C8 does not hold on the code. \<open>ConvertFloatToString\<close> cannot fail and, on a
  Series tagged "float", replaces \<open>String\<close> by the \<^verbatim>\<open>FormatFloat\<close> text of every
  element (lemma \<open>ConvertFloatToString_formats\<close>; what \<^verbatim>\<open>strconv.FormatFloat\<close> prints
  is the library's matter). But \<open>ConvertStringToFloat\<close> on \<open>[1.5, 2.0, 3]\<close> installs
  \<open>Float = [1.5, 2, 3]\<close>, empties \<open>String\<close> and leaves the tag "string", so the
  following \<open>ConvertFloatToString\<close> returns at its first test: \<open>String\<close> stays empty
  instead of becoming \<open>[1.5, 2, 3]\<close> as text, and \<open>GetMax\<close> on the converted
  Series still answers "to get max select a float column". Had the tag been "float",
  the three elements would have been formatted.
\<close>

theorem numeric_text_roundtrip_keeps_string_tag:
  "ConvertStringToFloat 2 parseDecimal [1, 0, 0] numericTextSeries
     = (\<lparr>Float = [3 / 2, 2, 3], String = [], DataType = ''string''\<rparr>, None)
   \<and> ConvertFloatToString 2 FormatFloat
        \<lparr>Float = [3 / 2, 2, 3 :: real], String = [], DataType = ''string''\<rparr>
     = \<lparr>Float = [3 / 2, 2, 3], String = [], DataType = ''string''\<rparr>
   \<and> String (ConvertFloatToString 2 FormatFloat
                (fst (ConvertStringToFloat 2 parseDecimal [1, 0, 0] numericTextSeries))) = []
   \<and> GetMax 2 [0, 1]
        (fst (ConvertStringToFloat 2 parseDecimal [1, 0, 0] numericTextSeries))
     = Inl (Errorf ''to get max select a float column'')
   \<and> ConvertFloatToString 2 FormatFloat
        \<lparr>Float = [3 / 2, 2, 3 :: real], String = [], DataType = ''float''\<rparr>
     = \<lparr>Float = [], String = [FormatFloat (3 / 2), FormatFloat 2, FormatFloat 3],
        DataType = ''float''\<rparr>"
proof -
  have ty: "DataType numericTextSeries \<noteq> ''float''" by (simp add: numericTextSeries_def)
  have P: "(1::nat) \<le> 2" by simp
  have good: "\<forall>x \<in> set (String numericTextSeries). \<not> isl (parseDecimal x)"
    by (simp add: numericTextSeries_def parseDecimal_values)
  have a: "ConvertStringToFloat 2 parseDecimal [1, 0, 0] numericTextSeries
     = (\<lparr>Float = [3 / 2, 2, 3], String = [], DataType = ''string''\<rparr>, None)"
    using ConvertStringToFloat_success[OF ty P good, of "[1, 0, 0]"]
    by (simp add: numericTextSeries_def parseDecimal_values)
  have b: "ConvertFloatToString 2 FormatFloat
        \<lparr>Float = [3 / 2, 2, 3 :: real], String = [], DataType = ''string''\<rparr>
     = \<lparr>Float = [3 / 2, 2, 3], String = [], DataType = ''string''\<rparr>"
    by (simp add: ConvertFloatToString_def)
  have c: "String (ConvertFloatToString 2 FormatFloat
                (fst (ConvertStringToFloat 2 parseDecimal [1, 0, 0] numericTextSeries))) = []"
    by (simp only: a fst_conv b) simp
  have "DataType \<lparr>Float = [3 / 2, 2, 3 :: real], String = [], DataType = ''float''\<rparr>
          \<noteq> ''string''" by simp
  from ConvertFloatToString_formats[OF this P, of FormatFloat]
  have d: "ConvertFloatToString 2 FormatFloat
        \<lparr>Float = [3 / 2, 2, 3 :: real], String = [], DataType = ''float''\<rparr>
     = \<lparr>Float = [], String = [FormatFloat (3 / 2), FormatFloat 2, FormatFloat 3],
        DataType = ''float''\<rparr>"
    by simp
  have e: "GetMax 2 [0, 1]
        (fst (ConvertStringToFloat 2 parseDecimal [1, 0, 0] numericTextSeries))
     = Inl (Errorf ''to get max select a float column'')"
    by (simp only: a fst_conv) (simp add: GetMax_def)
  show ?thesis using a b c e d by (intro conjI)
qed

section \<open>Percentile\<close>




text \<open>
  At \<open>p = 100\<close> the index equals the size and \<^verbatim>\<open>nums[lower]\<close> is out of range.
\<close>

lemma percentile_100_out_of_range:
  "arrayCalculatePercentile [10, 20, 30, 40] 100 = Inl IndexOutOfRange"
  by (simp add: arrayCalculatePercentile_def goInt_def Let_def)




section \<open>What the reductions compute\<close>

























section \<open>The error contract of the reductions\<close>









end
